theory Spec2Isabelle
  imports Complex_Main
begin

section \<open>Electronic Circuit Analyzer: the component ledger of Source.cpp\<close>

text \<open>
  The ledger of \<^verbatim>\<open>Source.cpp\<close> is a set of global variables (the component list, the two
  lists of IDs, the undo stack, the operation queue and the ID counter) and the functions
  that read and write them. Here the globals are the fields of one record, and a C++
  function of return type \<open>T\<close> is a function from the record to a pair of its result and
  the record after the call; \<^verbatim>\<open>void\<close> is \<open>unit\<close>.

  Numbers. A C++ \<^verbatim>\<open>int\<close> has 32 bits. It is modelled by an \<open>int\<close>, and the one piece of
  arithmetic on one, \<^verbatim>\<open>nextId++\<close>, wraps around: from \<open>2147483647\<close> it goes to
  \<open>-2147483648\<close> (the C++ standard leaves the overflow undefined; this is what the compiled
  program does). A \<^verbatim>\<open>double\<close> is modelled by a \<open>real\<close>: the arithmetic is exact, so
  rounding, overflow to infinity and underflow to zero are outside the model. A
  \<^verbatim>\<open>std::complex<double>\<close> is a \<open>complex\<close>, or the one value \<open>NonFinite\<close> for a number
  with a component that is infinite or not a number, which the program gets when it
  divides by zero and then goes on computing with.
\<close>

subsection \<open>Data structures\<close>

datatype ComponentType = RESISTOR | CAPACITOR | INDUCTOR

datatype CircuitType = SERIES | PARALLEL

record Component =
  idC :: int
  type :: ComponentType
  valueC :: real
  circuitType :: CircuitType

record Operation =
  description :: string

text \<open>
  \<open>undoStack\<close> has its top at the head; \<open>opQueue\<close> has its front (the oldest entry) at
  the head and is pushed at the back.
\<close>

record ledger =
  componentsData :: "Component list"
  seriesCircuit :: "int list"
  parallelCircuit :: "int list"
  undoStack :: "Component list list"
  opQueue :: "Operation list"
  nextId :: int

definition init_ledger :: ledger where
  "init_ledger =
     \<lparr>componentsData = [], seriesCircuit = [], parallelCircuit = [],
      undoStack = [], opQueue = [], nextId = 1\<rparr>"

definition M_PI :: real where
  "M_PI = 3.14159265358979323846"

definition J :: complex where
  "J = Complex 0 1"

subsection \<open>Utility\<close>

fun TypeToString :: "ComponentType \<Rightarrow> string" where
  "TypeToString t =
     (if t = RESISTOR then ''Resistor''
      else if t = CAPACITOR then ''Capacitor''
      else ''Inductor'')"

text \<open>
  \<^verbatim>\<open>ss << id\<close> writes an \<^verbatim>\<open>int\<close> in decimal. \<^verbatim>\<open>ss << value\<close> writes a \<^verbatim>\<open>double\<close> in the
  stream's default format, which rounds; it is a parameter \<open>show_double\<close> of
  \<open>AddComponent\<close>.
\<close>

fun show_nat :: "nat \<Rightarrow> string" where
  "show_nat n =
     (if n < 10 then [''0123456789'' ! n]
      else show_nat (n div 10) @ [''0123456789'' ! (n mod 10)])"

declare show_nat.simps [simp del]

definition show_int :: "int \<Rightarrow> string" where
  "show_int i = (if i < 0 then CHR ''-'' # show_nat (nat (- i)) else show_nat (nat i))"

text \<open>
  A stand-in for \<open>show_double\<close> in the examples below; it only ever reaches the text of
  an entry of the operation queue.
\<close>

definition example_show_double :: "real \<Rightarrow> string" where
  "example_show_double v = ''?''"

subsection \<open>Calculations on one component\<close>

text \<open>
  A value of \<^verbatim>\<open>std::complex<double>\<close>. \<^verbatim>\<open>-J / (omega * c->value)\<close> divides a complex number
  by a \<^verbatim>\<open>double\<close> that is zero when the frequency is: the quotient has a component that
  is not a number and one that is infinite.
\<close>

datatype cd = Finite complex | NonFinite

definition div_by_double :: "complex \<Rightarrow> real \<Rightarrow> cd" where
  "div_by_double z d = (if d = 0 then NonFinite else Finite (z / complex_of_real d))"

fun GetComponentImpedanceComplex :: "Component option \<Rightarrow> real \<Rightarrow> cd" where
  "GetComponentImpedanceComplex None freqHz = Finite (Complex 0 0)"
| "GetComponentImpedanceComplex (Some c) freqHz =
     (if type c = RESISTOR then Finite (Complex (valueC c) 0)
      else
        (let omega = 2 * M_PI * freqHz in
         if type c = INDUCTOR then
           Finite (J * complex_of_real omega * complex_of_real (valueC c))
         else if valueC c = 0 then Finite (Complex 10000000000 0)
         else div_by_double (- J) (omega * valueC c)))"

text \<open>
  \<^verbatim>\<open>sum += z\<close>: a component that is infinite or not a number stays so under addition.
  \<^verbatim>\<open>std::abs\<close>: the modulus, \<open>None\<close> when it is infinite or not a number.
\<close>

fun cd_add :: "cd \<Rightarrow> cd \<Rightarrow> cd" where
  "cd_add (Finite a) (Finite b) = Finite (a + b)"
| "cd_add a b = NonFinite"

fun cd_abs :: "cd \<Rightarrow> real option" where
  "cd_abs (Finite z) = Some (cmod z)"
| "cd_abs NonFinite = None"

text \<open>
  \<^verbatim>\<open>cd(1.0, 0.0) / z\<close>, which the program computes only for a \<open>z\<close> that is not zero. What
  the quotient is for a \<open>z\<close> that is not finite is the library's choice (zero where complex
  division follows Annex G of C99, not a number elsewhere): it is the parameter
  \<open>div_nonfinite\<close>.
\<close>

fun cd_recip :: "cd \<Rightarrow> cd \<Rightarrow> cd" where
  "cd_recip div_nonfinite (Finite z) = Finite (Complex 1 0 / z)"
| "cd_recip div_nonfinite NonFinite = div_nonfinite"

subsection \<open>The ledger's operations\<close>

definition PushSnapshot :: "string \<Rightarrow> ledger \<Rightarrow> unit \<times> ledger" where
  "PushSnapshot desc s =
     (let s1 = s\<lparr>undoStack := componentsData s # undoStack s\<rparr>;
          op = \<lparr>description = desc\<rparr>;
          s2 = s1\<lparr>opQueue := opQueue s1 @ [op]\<rparr>;
          s3 = (if length (opQueue s2) > 20 then s2\<lparr>opQueue := tl (opQueue s2)\<rparr> else s2)
      in ((), s3))"

text \<open>\<^verbatim>\<open>nextId++\<close>: the sum, brought back into \<open>-2^31 .. 2^31 - 1\<close>.\<close>

definition wrap32 :: "int \<Rightarrow> int" where
  "wrap32 x = (x + 2147483648) mod 4294967296 - 2147483648"

definition AddComponent ::
  "(real \<Rightarrow> string) \<Rightarrow> ComponentType \<Rightarrow> real \<Rightarrow> CircuitType \<Rightarrow> ledger \<Rightarrow> unit \<times> ledger" where
  "AddComponent show_double t v circuit s =
     (let s1 = s\<lparr>componentsData := componentsData s @
                  [\<lparr>idC = nextId s, type = t, valueC = v, circuitType = circuit\<rparr>]\<rparr>;
          s2 = (if circuit = SERIES
                then s1\<lparr>seriesCircuit := seriesCircuit s1 @ [nextId s1]\<rparr>
                else s1\<lparr>parallelCircuit := parallelCircuit s1 @ [nextId s1]\<rparr>);
          ss = ''Added '' @ TypeToString t @ '' to ''
               @ (if circuit = SERIES then ''SERIES'' else ''PARALLEL'')
               @ '' circuit (ID='' @ show_int (nextId s2) @ '', value='' @ show_double v @ '')'';
          s3 = snd (PushSnapshot ss s2)
      in ((), s3\<lparr>nextId := wrap32 (nextId s3 + 1)\<rparr>))"

text \<open>\<^verbatim>\<open>componentsData.erase(it)\<close>, the iterator being \<open>n\<close> steps from \<^verbatim>\<open>begin()\<close>.\<close>

definition erase_at :: "nat \<Rightarrow> 'a list \<Rightarrow> 'a list" where
  "erase_at n xs = take n xs @ drop (Suc n) xs"

text \<open>
  The loop of \<open>RemoveComponent\<close>: \<open>n\<close> is the position of the iterator and the list is
  what lies from the iterator to \<^verbatim>\<open>end()\<close>. \<^verbatim>\<open>std::list::remove\<close> removes every element equal
  to its argument.
\<close>

fun RemoveComponent_loop :: "nat \<Rightarrow> Component list \<Rightarrow> int \<Rightarrow> ledger \<Rightarrow> bool \<times> ledger" where
  "RemoveComponent_loop n [] i s = (False, s)"
| "RemoveComponent_loop n (c # rest) i s =
     (if idC c = i then
        (let s1 = s\<lparr>seriesCircuit := removeAll i (seriesCircuit s)\<rparr>;
             s2 = s1\<lparr>parallelCircuit := removeAll i (parallelCircuit s1)\<rparr>;
             ss = ''Removed component ID='' @ show_int i;
             s3 = snd (PushSnapshot ss s2);
             s4 = s3\<lparr>componentsData := erase_at n (componentsData s3)\<rparr>
         in (True, s4))
      else RemoveComponent_loop (Suc n) rest i s)"

definition RemoveComponent :: "int \<Rightarrow> ledger \<Rightarrow> bool \<times> ledger" where
  "RemoveComponent i s = RemoveComponent_loop 0 (componentsData s) i s"

text \<open>
  \<open>FindComponent\<close> returns a pointer into the list, or \<^verbatim>\<open>NULL\<close>; the model returns the
  component pointed to.
\<close>

fun FindComponent_loop :: "Component list \<Rightarrow> int \<Rightarrow> Component option" where
  "FindComponent_loop [] i = None"
| "FindComponent_loop (c # rest) i = (if idC c = i then Some c else FindComponent_loop rest i)"

definition FindComponent :: "int \<Rightarrow> ledger \<Rightarrow> Component option \<times> ledger" where
  "FindComponent i s = (FindComponent_loop (componentsData s) i, s)"

fun Undo_loop :: "Component list \<Rightarrow> ledger \<Rightarrow> ledger" where
  "Undo_loop [] s = s"
| "Undo_loop (c # rest) s =
     Undo_loop rest
       (if circuitType c = SERIES
        then s\<lparr>seriesCircuit := seriesCircuit s @ [idC c]\<rparr>
        else s\<lparr>parallelCircuit := parallelCircuit s @ [idC c]\<rparr>)"

definition Undo :: "ledger \<Rightarrow> unit \<times> ledger" where
  "Undo s =
     (if undoStack s \<noteq> [] then
        (let s1 = s\<lparr>componentsData := hd (undoStack s)\<rparr>;
             s2 = s1\<lparr>undoStack := tl (undoStack s1)\<rparr>;
             s3 = s2\<lparr>seriesCircuit := []\<rparr>;
             s4 = s3\<lparr>parallelCircuit := []\<rparr>
         in ((), Undo_loop (componentsData s4) s4))
      else ((), s))"

subsection \<open>Aggregate computations\<close>

fun CalcSeries_loop :: "int list \<Rightarrow> real \<Rightarrow> ledger \<Rightarrow> real \<times> ledger" where
  "CalcSeries_loop [] sumv s = (sumv, s)"
| "CalcSeries_loop (i # ids) sumv s =
     (case FindComponent i s of
        (None, s1) \<Rightarrow> CalcSeries_loop ids sumv s1
      | (Some c, s1) \<Rightarrow>
          CalcSeries_loop ids (if type c = RESISTOR then sumv + valueC c else sumv) s1)"

definition CalcSeries :: "int list \<Rightarrow> ledger \<Rightarrow> real \<times> ledger" where
  "CalcSeries ids s = CalcSeries_loop ids 0 s"

fun CalcParallel_loop :: "int list \<Rightarrow> real \<Rightarrow> ledger \<Rightarrow> real \<times> ledger" where
  "CalcParallel_loop [] invv s = (invv, s)"
| "CalcParallel_loop (i # ids) invv s =
     (case FindComponent i s of
        (None, s1) \<Rightarrow> CalcParallel_loop ids invv s1
      | (Some c, s1) \<Rightarrow>
          CalcParallel_loop ids
            (if type c = RESISTOR \<and> valueC c \<noteq> 0 then invv + 1 / valueC c else invv) s1)"

definition CalcParallel :: "int list \<Rightarrow> ledger \<Rightarrow> real \<times> ledger" where
  "CalcParallel ids s =
     (case CalcParallel_loop ids 0 s of
        (invv, s1) \<Rightarrow> if invv = 0 then (0, s1) else (1 / invv, s1))"

fun CalcSeriesImpedance_loop ::
  "int list \<Rightarrow> real \<Rightarrow> cd \<Rightarrow> ledger \<Rightarrow> cd \<times> ledger" where
  "CalcSeriesImpedance_loop [] freqHz sumv s = (sumv, s)"
| "CalcSeriesImpedance_loop (i # ids) freqHz sumv s =
     (case FindComponent i s of
        (None, s1) \<Rightarrow> CalcSeriesImpedance_loop ids freqHz sumv s1
      | (Some c, s1) \<Rightarrow>
          CalcSeriesImpedance_loop ids freqHz
            (cd_add sumv (GetComponentImpedanceComplex (Some c) freqHz)) s1)"

definition CalcSeriesImpedance :: "int list \<Rightarrow> real \<Rightarrow> ledger \<Rightarrow> real option \<times> ledger" where
  "CalcSeriesImpedance ids freqHz s =
     (case CalcSeriesImpedance_loop ids freqHz (Finite (Complex 0 0)) s of
        (sumv, s1) \<Rightarrow> (cd_abs sumv, s1))"

fun CalcParallelImpedance_loop ::
  "cd \<Rightarrow> int list \<Rightarrow> real \<Rightarrow> cd \<Rightarrow> ledger \<Rightarrow> cd \<times> ledger" where
  "CalcParallelImpedance_loop div_nonfinite [] freqHz invv s = (invv, s)"
| "CalcParallelImpedance_loop div_nonfinite (i # ids) freqHz invv s =
     (case FindComponent i s of
        (None, s1) \<Rightarrow> CalcParallelImpedance_loop div_nonfinite ids freqHz invv s1
      | (Some c, s1) \<Rightarrow>
          (let z = GetComponentImpedanceComplex (Some c) freqHz in
           CalcParallelImpedance_loop div_nonfinite ids freqHz
             (if z \<noteq> Finite (Complex 0 0) then cd_add invv (cd_recip div_nonfinite z)
              else invv) s1))"

definition CalcParallelImpedance ::
  "cd \<Rightarrow> int list \<Rightarrow> real \<Rightarrow> ledger \<Rightarrow> real option \<times> ledger" where
  "CalcParallelImpedance div_nonfinite ids freqHz s =
     (case CalcParallelImpedance_loop div_nonfinite ids freqHz (Finite (Complex 0 0)) s of
        (invv, s1) \<Rightarrow>
          if invv = Finite (Complex 0 0) then (Some 0, s1)
          else (let ztot = cd_recip div_nonfinite invv in (cd_abs ztot, s1)))"

subsection \<open>The callers in the presentation layer\<close>

text \<open>
  The click on the Add button in \<open>DrawAddScreen\<close>. \<open>ok\<close> and \<open>v\<close> are what
  \<open>StringToDoubleSafe\<close> made of the text typed; the result is the new status message and
  the ledger.
\<close>

definition DrawAddScreen_addClicked ::
  "(real \<Rightarrow> string) \<Rightarrow> ComponentType \<Rightarrow> CircuitType \<Rightarrow> bool \<Rightarrow> real \<Rightarrow> ledger
     \<Rightarrow> string \<times> ledger" where
  "DrawAddScreen_addClicked show_double addType addCircuit ok v s =
     (if ok \<and> v > 0 then
        (''Component added successfully!'', snd (AddComponent show_double addType v addCircuit s))
      else (''Invalid value. Enter a positive number.'', s))"

text \<open>
  The calls the presentation layer makes on the ledger, and a session as the list of
  them in order, run from a given state.
\<close>

datatype call =
  CallAdd ComponentType real CircuitType
  | CallRemove int
  | CallUndo

fun exec :: "(real \<Rightarrow> string) \<Rightarrow> call \<Rightarrow> ledger \<Rightarrow> ledger" where
  "exec show_double (CallAdd t v circuit) s = snd (AddComponent show_double t v circuit s)"
| "exec show_double (CallRemove i) s = snd (RemoveComponent i s)"
| "exec show_double CallUndo s = snd (Undo s)"

fun run :: "(real \<Rightarrow> string) \<Rightarrow> call list \<Rightarrow> ledger \<Rightarrow> ledger" where
  "run show_double [] s = s"
| "run show_double (c # cs) s = run show_double cs (exec show_double c s)"

subsection \<open>The invariant of the ledger, and the IDs a session hands out\<close>

text \<open>The number of \<open>CallAdd\<close>s of a session.\<close>

fun adds :: "call list \<Rightarrow> nat" where
  "adds [] = 0"
| "adds (CallAdd t v c # cs) = Suc (adds cs)"
| "adds (CallRemove i # cs) = adds cs"
| "adds (CallUndo # cs) = adds cs"

text \<open>
  What holds of the ledger after a session with \<open>n\<close> adds, as long as \<open>n\<close> is at most
  \<open>2^32\<close>: the ID counter is the initial \<open>1\<close> advanced \<open>n\<close> times; the two ID lists are
  the IDs of the series and of the parallel components, in the order of the component
  list; the IDs of the component list, and of every snapshot on the undo stack, are
  distinct and each is one that the adds so far have handed out.
\<close>

definition in_sync :: "ledger \<Rightarrow> bool" where
  "in_sync s \<longleftrightarrow>
     seriesCircuit s = map idC (filter (\<lambda>c. circuitType c = SERIES) (componentsData s)) \<and>
     parallelCircuit s = map idC (filter (\<lambda>c. circuitType c \<noteq> SERIES) (componentsData s))"

definition fresh_ids :: "nat \<Rightarrow> Component list \<Rightarrow> bool" where
  "fresh_ids n cs \<longleftrightarrow>
     distinct (map idC cs) \<and>
     (\<forall>c \<in> set cs. \<exists>k. 1 \<le> k \<and> k \<le> n \<and> idC c = wrap32 (int k))"

definition ledger_inv :: "nat \<Rightarrow> ledger \<Rightarrow> bool" where
  "ledger_inv n s \<longleftrightarrow>
     nextId s = wrap32 (int (Suc n)) \<and> in_sync s \<and> fresh_ids n (componentsData s) \<and>
     (\<forall>snap \<in> set (undoStack s). fresh_ids n snap)"

text \<open>
  A round of four calls on a ledger that holds the component of ID 1: it advances the ID
  counter by one and leaves the component list, both ID lists and the undo stack as they
  were.
\<close>

definition remove_add_undo_undo :: "call list" where
  "remove_add_undo_undo = [CallRemove 1, CallAdd RESISTOR 10 SERIES, CallUndo, CallUndo]"

text \<open>The component list without its first component of ID \<open>i\<close>.\<close>

fun erase_first :: "int \<Rightarrow> Component list \<Rightarrow> Component list" where
  "erase_first i [] = []"
| "erase_first i (c # cs) = (if idC c = i then cs else c # erase_first i cs)"

text \<open>
  The IDs given to the components that the \<open>CallAdd\<close>s of a session create, in the order
  of the calls: each is read off the component that \<open>AddComponent\<close> has just appended.
\<close>

fun assigned_ids :: "(real \<Rightarrow> string) \<Rightarrow> call list \<Rightarrow> ledger \<Rightarrow> int list" where
  "assigned_ids sd [] s = []"
| "assigned_ids sd (CallAdd t v c # cs) s =
     idC (last (componentsData (exec sd (CallAdd t v c) s)))
       # assigned_ids sd cs (exec sd (CallAdd t v c) s)"
| "assigned_ids sd (CallRemove i # cs) s = assigned_ids sd cs (exec sd (CallRemove i) s)"
| "assigned_ids sd (CallUndo # cs) s = assigned_ids sd cs (exec sd CallUndo s)"

subsection \<open>The aggregates as the specification words them\<close>

text \<open>
  The members of a list of IDs are, for each ID of the list in order, the first component
  of the component list with that ID, when there is one. The resistance of a series group
  is the sum of the values of its resistors; a parallel group inverts the sum of the
  reciprocals of its resistors of non-zero value.
\<close>

definition members :: "ledger \<Rightarrow> int list \<Rightarrow> Component list" where
  "members s ids = List.map_filter (\<lambda>i. find (\<lambda>c. idC c = i) (componentsData s)) ids"

definition series_resistance_spec :: "Component list \<Rightarrow> real" where
  "series_resistance_spec cs = sum_list (map valueC (filter (\<lambda>c. type c = RESISTOR) cs))"

definition reciprocal_sum_spec :: "Component list \<Rightarrow> real" where
  "reciprocal_sum_spec cs =
     sum_list (map (\<lambda>c. 1 / valueC c) (filter (\<lambda>c. type c = RESISTOR \<and> valueC c \<noteq> 0) cs))"

subsection \<open>Example ledgers\<close>

definition one_capacitor :: ledger where
  "one_capacitor = snd (AddComponent example_show_double CAPACITOR 1 SERIES init_ledger)"

definition resistor_and_capacitor :: ledger where
  "resistor_and_capacitor =
     run example_show_double [CallAdd RESISTOR 4 PARALLEL, CallAdd CAPACITOR 1 PARALLEL]
       init_ledger"


definition two_resistors :: ledger where
  "two_resistors =
     run example_show_double [CallAdd RESISTOR 100 PARALLEL, CallAdd RESISTOR 100 PARALLEL] init_ledger"

section \<open>Properties\<close>

subsection \<open>What each operation does to each field\<close>

lemma PushSnapshot_fields [simp]:
  "componentsData (snd (PushSnapshot d s)) = componentsData s"
  "seriesCircuit (snd (PushSnapshot d s)) = seriesCircuit s"
  "parallelCircuit (snd (PushSnapshot d s)) = parallelCircuit s"
  "nextId (snd (PushSnapshot d s)) = nextId s"
  "undoStack (snd (PushSnapshot d s)) = componentsData s # undoStack s"
  by (simp_all add: PushSnapshot_def Let_def)

lemma AddComponent_fields [simp]:
  "componentsData (snd (AddComponent sd t v c s)) =
     componentsData s @ [\<lparr>idC = nextId s, type = t, valueC = v, circuitType = c\<rparr>]"
  "seriesCircuit (snd (AddComponent sd t v c s)) =
     (if c = SERIES then seriesCircuit s @ [nextId s] else seriesCircuit s)"
  "parallelCircuit (snd (AddComponent sd t v c s)) =
     (if c = SERIES then parallelCircuit s else parallelCircuit s @ [nextId s])"
  "nextId (snd (AddComponent sd t v c s)) = wrap32 (nextId s + 1)"
  "undoStack (snd (AddComponent sd t v c s)) =
     (componentsData s @ [\<lparr>idC = nextId s, type = t, valueC = v, circuitType = c\<rparr>])
       # undoStack s"
  by (simp_all add: AddComponent_def Let_def)

lemma Undo_loop_fields [simp]:
  "componentsData (Undo_loop cs s) = componentsData s"
  "undoStack (Undo_loop cs s) = undoStack s"
  "opQueue (Undo_loop cs s) = opQueue s"
  "nextId (Undo_loop cs s) = nextId s"
  by (induction cs arbitrary: s) simp_all

lemma Undo_loop_series:
  "seriesCircuit (Undo_loop cs s) =
     seriesCircuit s @ map idC (filter (\<lambda>c. circuitType c = SERIES) cs)"
  by (induction cs arbitrary: s) simp_all

lemma Undo_loop_parallel:
  "parallelCircuit (Undo_loop cs s) =
     parallelCircuit s @ map idC (filter (\<lambda>c. circuitType c \<noteq> SERIES) cs)"
  by (induction cs arbitrary: s) simp_all

lemma RemoveComponent_loop_absent:
  "i \<notin> idC ` set cs \<Longrightarrow> RemoveComponent_loop n cs i s = (False, s)"
  by (induction cs arbitrary: n) auto

subsection \<open>Undo after AddComponent\<close>

lemma Undo_after_Add_any_state:
  "componentsData (snd (Undo (snd (AddComponent sd t v c s))))
     = componentsData s @ [\<lparr>idC = nextId s, type = t, valueC = v, circuitType = c\<rparr>]"
  by (simp add: Undo_def Let_def)

text \<open>
  Claim C1. Undo should bring the component list and both ID lists back to what they were
  before the last successful AddComponent or RemoveComponent. \<open>AddComponent\<close> calls
  \<open>PushSnapshot\<close> after it has appended the component, so the snapshot already holds it:
  on the empty ledger, adding a 10 ohm series resistor and undoing leaves the resistor in
  the component list and its ID in the series list, where both were empty before the add.
\<close>

theorem Undo_after_Add_keeps_component:
  "componentsData init_ledger = [] \<and>
   undoStack (snd (AddComponent example_show_double RESISTOR 10 SERIES init_ledger))
     = [[\<lparr>idC = 1, type = RESISTOR, valueC = 10, circuitType = SERIES\<rparr>]] \<and>
   componentsData
       (snd (Undo (snd (AddComponent example_show_double RESISTOR 10 SERIES init_ledger))))
     = [\<lparr>idC = 1, type = RESISTOR, valueC = 10, circuitType = SERIES\<rparr>] \<and>
   seriesCircuit init_ledger = [] \<and>
   seriesCircuit
       (snd (Undo (snd (AddComponent example_show_double RESISTOR 10 SERIES init_ledger))))
     = [1]"
  by (simp add: Undo_def Let_def Undo_loop_series init_ledger_def)

subsection \<open>Non-positive values\<close>

text \<open>
  Claim C2, as stated: AddComponent with a value that is not positive fails and changes
  nothing. \<open>AddComponent\<close> has no test of the value: called with \<open>-5\<close> on the empty
  ledger it appends the component and advances the ID counter.
\<close>

theorem AddComponent_nonpositive_counterexample:
  "(- 5 :: real) \<le> 0 \<and>
   componentsData (snd (AddComponent example_show_double RESISTOR (- 5) SERIES init_ledger))
     = [\<lparr>idC = 1, type = RESISTOR, valueC = - 5, circuitType = SERIES\<rparr>] \<and>
   componentsData init_ledger = [] \<and>
   nextId (snd (AddComponent example_show_double RESISTOR (- 5) SERIES init_ledger)) = 2 \<and>
   nextId init_ledger = 1"
  by (simp add: init_ledger_def wrap32_def)

text \<open>
  Claim C2, amended. The test is made by the caller: when the value typed is not positive,
  the Add button of \<open>DrawAddScreen\<close> does not call \<open>AddComponent\<close>, the status message
  becomes "Invalid value. Enter a positive number." and the whole ledger (component list,
  both ID lists, undo stack, operation queue and ID counter) is as it was.
\<close>

theorem addClicked_rejects_nonpositive:
  "v \<le> 0 \<Longrightarrow>
   DrawAddScreen_addClicked sd t c ok v s = (''Invalid value. Enter a positive number.'', s)"
  by (simp add: DrawAddScreen_addClicked_def)

theorem addClicked_rejects_nonpositive_witness:
  "(0::real) \<le> 0 \<and>
   DrawAddScreen_addClicked example_show_double RESISTOR SERIES True 0 init_ledger
     = (''Invalid value. Enter a positive number.'', init_ledger)"
proof -
  have h: "(0::real) \<le> 0" by simp
  show ?thesis using h addClicked_rejects_nonpositive [OF h] by simp
qed

subsection \<open>Removing an unknown ID\<close>

text \<open>
  Claim C5. When no component of the list has the ID, \<open>RemoveComponent\<close> returns false
  and the whole ledger is as before the call: component list, both ID lists, undo stack
  (no snapshot pushed) and operation queue.
\<close>

theorem RemoveComponent_absent_noop:
  "i \<notin> idC ` set (componentsData s) \<Longrightarrow> RemoveComponent i s = (False, s)"
  by (simp add: RemoveComponent_def RemoveComponent_loop_absent)

theorem RemoveComponent_absent_noop_witness:
  "(2::int) \<notin> idC ` set (componentsData
       (snd (AddComponent example_show_double RESISTOR 10 SERIES init_ledger)))
   \<and> RemoveComponent 2 (snd (AddComponent example_show_double RESISTOR 10 SERIES init_ledger))
       = (False, snd (AddComponent example_show_double RESISTOR 10 SERIES init_ledger))"
proof -
  have h: "(2::int) \<notin> idC ` set (componentsData
       (snd (AddComponent example_show_double RESISTOR 10 SERIES init_ledger)))"
    by (simp add: init_ledger_def)
  show ?thesis using h RemoveComponent_absent_noop [OF h] by simp
qed

subsection \<open>What Undo returns\<close>

text \<open>
  Claim C6, as stated: Undo returns false on an empty undo stack and true otherwise.
  \<open>Undo\<close> is a \<^verbatim>\<open>void\<close> function: what it returns on the empty stack of the initial
  ledger and on the non-empty stack after one add is the same value.
\<close>

theorem Undo_result_counterexample:
  "undoStack init_ledger = [] \<and>
   undoStack (snd (AddComponent example_show_double RESISTOR 10 SERIES init_ledger)) \<noteq> [] \<and>
   fst (Undo init_ledger)
     = fst (Undo (snd (AddComponent example_show_double RESISTOR 10 SERIES init_ledger)))"
  by (simp add: init_ledger_def)

text \<open>
  Claim C6, amended. \<open>Undo\<close> returns nothing. On an empty undo stack it leaves the whole
  ledger unchanged. On a non-empty stack it pops the top snapshot, makes it the component
  list and rebuilds both ID lists from it, in its order, by the components' circuit type;
  the operation queue and the ID counter are unchanged.
\<close>

theorem Undo_empty_noop_else_restores:
  "(undoStack s = [] \<longrightarrow> Undo s = ((), s)) \<and>
   (undoStack s \<noteq> [] \<longrightarrow>
      componentsData (snd (Undo s)) = hd (undoStack s) \<and>
      undoStack (snd (Undo s)) = tl (undoStack s) \<and>
      seriesCircuit (snd (Undo s)) =
        map idC (filter (\<lambda>c. circuitType c = SERIES) (hd (undoStack s))) \<and>
      parallelCircuit (snd (Undo s)) =
        map idC (filter (\<lambda>c. circuitType c \<noteq> SERIES) (hd (undoStack s))) \<and>
      opQueue (snd (Undo s)) = opQueue s \<and>
      nextId (snd (Undo s)) = nextId s)"
  by (simp add: Undo_def Let_def Undo_loop_series Undo_loop_parallel)

theorem Undo_empty_noop_else_restores_witness:
  "undoStack init_ledger = [] \<and> Undo init_ledger = ((), init_ledger) \<and>
   undoStack (snd (AddComponent example_show_double RESISTOR 10 PARALLEL init_ledger)) \<noteq> [] \<and>
   componentsData (snd (Undo (snd (AddComponent example_show_double RESISTOR 10 PARALLEL init_ledger))))
     = [\<lparr>idC = 1, type = RESISTOR, valueC = 10, circuitType = PARALLEL\<rparr>] \<and>
   undoStack (snd (Undo (snd (AddComponent example_show_double RESISTOR 10 PARALLEL init_ledger)))) = [] \<and>
   seriesCircuit (snd (Undo (snd (AddComponent example_show_double RESISTOR 10 PARALLEL init_ledger)))) = [] \<and>
   parallelCircuit (snd (Undo (snd (AddComponent example_show_double RESISTOR 10 PARALLEL init_ledger)))) = [1] \<and>
   nextId (snd (Undo (snd (AddComponent example_show_double RESISTOR 10 PARALLEL init_ledger)))) = 2"
proof -
  have e: "undoStack init_ledger = []"
    by (simp add: init_ledger_def)
  have n: "undoStack (snd (AddComponent example_show_double RESISTOR 10 PARALLEL init_ledger)) \<noteq> []"
    by simp
  have v: "nextId init_ledger = 1" "componentsData init_ledger = []"
    by (simp_all add: init_ledger_def)
  from e n v show ?thesis
    using Undo_empty_noop_else_restores [of init_ledger]
      Undo_empty_noop_else_restores
        [of "snd (AddComponent example_show_double RESISTOR 10 PARALLEL init_ledger)"]
    by (simp add: wrap32_def)
qed

subsection \<open>Arithmetic of the ID counter\<close>

lemma wrap32_eq_iff: "wrap32 x = wrap32 y \<longleftrightarrow> x mod 4294967296 = y mod 4294967296"
proof -
  have "wrap32 x = wrap32 y \<longleftrightarrow>
        (x + 2147483648) mod 4294967296 = (y + 2147483648) mod 4294967296"
    by (simp add: wrap32_def)
  also have "\<dots> \<longleftrightarrow> (4294967296::int) dvd (x + 2147483648) - (y + 2147483648)"
    by (rule mod_eq_dvd_iff)
  also have "\<dots> \<longleftrightarrow> (4294967296::int) dvd x - y"
    by simp
  also have "\<dots> \<longleftrightarrow> x mod 4294967296 = y mod 4294967296"
    by (rule mod_eq_dvd_iff [symmetric])
  finally show ?thesis .
qed

lemma wrap32_succ: "wrap32 (wrap32 x + 1) = wrap32 (x + 1)"
  unfolding wrap32_eq_iff
  by (simp add: wrap32_def mod_simps add.commute)

lemma wrap32_id: "- 2147483648 \<le> x \<Longrightarrow> x < 2147483648 \<Longrightarrow> wrap32 x = x"
  by (simp add: wrap32_def)

lemma wrap32_distinct:
  assumes "j < k" and "k \<le> j + 4294967295"
  shows "wrap32 (int j) \<noteq> wrap32 (int k)"
proof
  assume "wrap32 (int j) = wrap32 (int k)"
  then have "int k mod 4294967296 = int j mod 4294967296"
    by (simp add: wrap32_eq_iff)
  then have "(4294967296::int) dvd int k - int j"
    by (simp add: mod_eq_dvd_iff)
  moreover from assms have "0 < int k - int j" and "int k - int j < 4294967296"
    by simp_all
  ultimately show False
    using zdvd_not_zless by blast
qed

subsection \<open>The invariant is kept by every operation\<close>

lemma Undo_fields:
  "nextId (snd (Undo s)) = nextId s"
  "opQueue (snd (Undo s)) = opQueue s"
  "componentsData (snd (Undo s)) = (if undoStack s = [] then componentsData s else hd (undoStack s))"
  "undoStack (snd (Undo s)) = tl (undoStack s)"
  by (simp_all add: Undo_def Let_def)

lemma Undo_in_sync: "undoStack s \<noteq> [] \<Longrightarrow> in_sync (snd (Undo s))"
  by (simp add: Undo_def Let_def in_sync_def Undo_loop_series Undo_loop_parallel)

lemma erase_at_append: "length pre = n \<Longrightarrow> erase_at n (pre @ c # rest) = pre @ rest"
  by (simp add: erase_at_def)

lemma RemoveComponent_loop_present:
  "i \<in> idC ` set cs \<Longrightarrow> componentsData s = pre @ cs \<Longrightarrow> length pre = n \<Longrightarrow>
   RemoveComponent_loop n cs i s =
     (True, (snd (PushSnapshot (''Removed component ID='' @ show_int i)
              (s\<lparr>seriesCircuit := removeAll i (seriesCircuit s),
                 parallelCircuit := removeAll i (parallelCircuit s)\<rparr>)))
            \<lparr>componentsData := pre @ erase_first i cs\<rparr>)"
proof (induction cs arbitrary: n pre)
  case Nil
  then show ?case by simp
next
  case (Cons c cs)
  show ?case
  proof (cases "idC c = i")
    case True
    with Cons.prems show ?thesis
      by (simp add: Let_def erase_at_append)
  next
    case False
    with Cons.prems have "i \<in> idC ` set cs" by auto
    moreover from Cons.prems have "componentsData s = (pre @ [c]) @ cs" by simp
    moreover from Cons.prems have "length (pre @ [c]) = Suc n" by simp
    ultimately have "RemoveComponent_loop (Suc n) cs i s =
     (True, (snd (PushSnapshot (''Removed component ID='' @ show_int i)
              (s\<lparr>seriesCircuit := removeAll i (seriesCircuit s),
                 parallelCircuit := removeAll i (parallelCircuit s)\<rparr>)))
            \<lparr>componentsData := (pre @ [c]) @ erase_first i cs\<rparr>)"
      by (rule Cons.IH)
    with False show ?thesis by simp
  qed
qed

lemma RemoveComponent_present:
  "i \<in> idC ` set (componentsData s) \<Longrightarrow>
   RemoveComponent i s =
     (True, (snd (PushSnapshot (''Removed component ID='' @ show_int i)
              (s\<lparr>seriesCircuit := removeAll i (seriesCircuit s),
                 parallelCircuit := removeAll i (parallelCircuit s)\<rparr>)))
            \<lparr>componentsData := erase_first i (componentsData s)\<rparr>)"
  using RemoveComponent_loop_present [of i "componentsData s" s "[]" 0]
  by (simp add: RemoveComponent_def)

lemma RemoveComponent_nextId: "nextId (snd (RemoveComponent i s)) = nextId s"
proof (cases "i \<in> idC ` set (componentsData s)")
  case True
  then show ?thesis by (simp add: RemoveComponent_present)
next
  case False
  then show ?thesis by (simp add: RemoveComponent_def RemoveComponent_loop_absent)
qed

lemma erase_first_subset: "set (erase_first i cs) \<subseteq> set cs"
  by (induction cs) auto

lemma erase_first_distinct: "distinct (map idC cs) \<Longrightarrow> distinct (map idC (erase_first i cs))"
proof (induction cs)
  case Nil
  then show ?case by simp
next
  case (Cons c cs)
  have "idC ` set (erase_first i cs) \<subseteq> idC ` set cs"
    using erase_first_subset [of i cs] by blast
  with Cons show ?case by auto
qed

lemma erase_first_fresh: "fresh_ids n cs \<Longrightarrow> fresh_ids n (erase_first i cs)"
  using erase_first_subset [of i cs]
  by (auto simp: fresh_ids_def erase_first_distinct)

lemma erase_first_filter:
  "distinct (map idC cs) \<Longrightarrow>
   map idC (filter P (erase_first i cs)) = removeAll i (map idC (filter P cs))"
proof (induction cs)
  case Nil
  then show ?case by simp
next
  case (Cons c cs)
  show ?case
  proof (cases "idC c = i")
    case True
    with Cons.prems have "i \<notin> set (map idC (filter P cs))" by auto
    then have "removeAll i (map idC (filter P cs)) = map idC (filter P cs)"
      by (rule removeAll_id)
    with True show ?thesis by simp
  next
    case False
    with Cons show ?thesis by simp
  qed
qed

lemma ledger_inv_init: "ledger_inv 0 init_ledger"
  by (simp add: ledger_inv_def in_sync_def fresh_ids_def init_ledger_def wrap32_def)

lemma fresh_ids_Suc: "fresh_ids n cs \<Longrightarrow> fresh_ids (Suc n) cs"
  unfolding fresh_ids_def by (meson le_Suc_eq)

lemma fresh_ids_snoc:
  assumes "fresh_ids n cs" and "n < 4294967296"
  shows "fresh_ids (Suc n)
           (cs @ [\<lparr>idC = wrap32 (int (Suc n)), type = t, valueC = v, circuitType = c\<rparr>])"
proof -
  have new: "wrap32 (int (Suc n)) \<notin> idC ` set cs"
  proof
    assume "wrap32 (int (Suc n)) \<in> idC ` set cs"
    then obtain k where k: "1 \<le> k" "k \<le> n" "wrap32 (int k) = wrap32 (int (Suc n))"
      using assms(1) by (auto simp: fresh_ids_def)
    from k(1,2) assms(2) have "k < Suc n" and "Suc n \<le> k + 4294967295"
      by simp_all
    then have "wrap32 (int k) \<noteq> wrap32 (int (Suc n))"
      by (rule wrap32_distinct)
    with k(3) show False by simp
  qed
  have old: "\<forall>c \<in> set cs. \<exists>k. 1 \<le> k \<and> k \<le> Suc n \<and> idC c = wrap32 (int k)"
    using fresh_ids_Suc [OF assms(1)] by (simp add: fresh_ids_def)
  have "\<exists>k. 1 \<le> k \<and> k \<le> Suc n \<and> wrap32 (int (Suc n)) = wrap32 (int k)"
    by (rule exI [of _ "Suc n"]) simp
  with new old assms(1) show ?thesis
    by (simp add: fresh_ids_def)
qed

lemma ledger_inv_Add:
  assumes "ledger_inv n s" and "n < 4294967296"
  shows "ledger_inv (Suc n) (snd (AddComponent sd t v c s))"
proof -
  from assms(1) have nx: "nextId s = wrap32 (int (Suc n))"
    and sy: "in_sync s"
    and fr: "fresh_ids n (componentsData s)"
    and st: "\<forall>snap \<in> set (undoStack s). fresh_ids n snap"
    by (simp_all add: ledger_inv_def)
  have "wrap32 (nextId s + 1) = wrap32 (int (Suc (Suc n)))"
    using wrap32_succ [of "int (Suc n)"] by (simp add: nx add.commute)
  moreover have "in_sync (snd (AddComponent sd t v c s))"
    using sy by (simp add: in_sync_def)
  moreover have "fresh_ids (Suc n) (componentsData (snd (AddComponent sd t v c s)))"
    using fresh_ids_snoc [OF fr assms(2)] by (simp add: nx)
  moreover have "\<forall>snap \<in> set (undoStack s). fresh_ids (Suc n) snap"
    using st by (simp add: fresh_ids_Suc)
  ultimately show ?thesis
    by (simp add: ledger_inv_def)
qed

lemma ledger_inv_Remove: "ledger_inv n s \<Longrightarrow> ledger_inv n (snd (RemoveComponent i s))"
proof (cases "i \<in> idC ` set (componentsData s)")
  case False
  assume "ledger_inv n s"
  with False show ?thesis
    by (simp add: RemoveComponent_def RemoveComponent_loop_absent)
next
  case True
  assume inv: "ledger_inv n s"
  then have d: "distinct (map idC (componentsData s))"
    by (simp add: ledger_inv_def fresh_ids_def)
  from inv show ?thesis
    by (simp add: RemoveComponent_present [OF True] ledger_inv_def in_sync_def
        erase_first_filter [OF d] erase_first_fresh)
qed

lemma ledger_inv_Undo: "ledger_inv n s \<Longrightarrow> ledger_inv n (snd (Undo s))"
proof (cases "undoStack s")
  case Nil
  assume "ledger_inv n s"
  with Nil show ?thesis by (simp add: Undo_def)
next
  case (Cons snap rest)
  assume "ledger_inv n s"
  with Cons show ?thesis
    using Undo_in_sync [of s]
    by (simp add: ledger_inv_def Undo_fields)
qed

lemma ledger_inv_run:
  "ledger_inv n s \<Longrightarrow> n + adds cs \<le> 4294967296 \<Longrightarrow> ledger_inv (n + adds cs) (run sd cs s)"
proof (induction cs arbitrary: n s)
  case Nil
  then show ?case by simp
next
  case (Cons c cs)
  show ?case
  proof (cases c)
    case (CallAdd t v k)
    with Cons.prems have "ledger_inv (Suc n) (exec sd c s)"
      by (simp add: ledger_inv_Add)
    moreover from CallAdd Cons.prems have "Suc n + adds cs \<le> 4294967296"
      by simp
    ultimately have "ledger_inv (Suc n + adds cs) (run sd cs (exec sd c s))"
      by (rule Cons.IH)
    with CallAdd show ?thesis by simp
  next
    case (CallRemove i)
    with Cons.prems have "ledger_inv n (exec sd c s)"
      by (simp add: ledger_inv_Remove)
    moreover from CallRemove Cons.prems have "n + adds cs \<le> 4294967296"
      by simp
    ultimately have "ledger_inv (n + adds cs) (run sd cs (exec sd c s))"
      by (rule Cons.IH)
    with CallRemove show ?thesis by simp
  next
    case CallUndo
    with Cons.prems have "ledger_inv n (exec sd c s)"
      by (simp add: ledger_inv_Undo)
    moreover from CallUndo Cons.prems have "n + adds cs \<le> 4294967296"
      by simp
    ultimately have "ledger_inv (n + adds cs) (run sd cs (exec sd c s))"
      by (rule Cons.IH)
    with CallUndo show ?thesis by simp
  qed
qed

lemma ledger_inv_union:
  "ledger_inv n s \<Longrightarrow>
   set (seriesCircuit s) \<union> set (parallelCircuit s) = idC ` set (componentsData s)"
  by (auto simp: ledger_inv_def in_sync_def)

lemma ledger_inv_disjoint:
  assumes "ledger_inv n s"
  shows "set (seriesCircuit s) \<inter> set (parallelCircuit s) = {}"
proof -
  from assms have "inj_on idC (set (componentsData s))"
    by (simp add: ledger_inv_def fresh_ids_def distinct_map)
  with assms show ?thesis
    by (auto simp: ledger_inv_def in_sync_def dest: inj_onD)
qed

text \<open>
  Undo after a successful \<open>RemoveComponent\<close> does restore the component list and both
  ID lists: \<open>RemoveComponent\<close> pushes its snapshot before it erases the component.
\<close>

lemma Undo_after_Remove_restores:
  assumes "in_sync s" and "i \<in> idC ` set (componentsData s)"
  shows "componentsData (snd (Undo (snd (RemoveComponent i s)))) = componentsData s"
    and "seriesCircuit (snd (Undo (snd (RemoveComponent i s)))) = seriesCircuit s"
    and "parallelCircuit (snd (Undo (snd (RemoveComponent i s)))) = parallelCircuit s"
  using assms
  by (simp_all add: RemoveComponent_present Undo_def Let_def in_sync_def
      Undo_loop_series Undo_loop_parallel)

subsection \<open>Sessions\<close>

lemma run_append: "run sd (xs @ ys) s = run sd ys (run sd xs s)"
  by (induction xs arbitrary: s) simp_all

lemma adds_append: "adds (xs @ ys) = adds xs + adds ys"
  by (induction xs rule: adds.induct) simp_all

lemma adds_rounds: "adds (concat (replicate n remove_add_undo_undo)) = n"
  by (induction n) (simp_all add: adds_append, simp add: remove_add_undo_undo_def)

lemma exec_nextId:
  "nextId s = wrap32 (int (Suc n)) \<Longrightarrow>
   nextId (exec sd c s) = wrap32 (int (Suc (n + adds [c])))"
proof (cases c)
  case (CallAdd t v k)
  assume "nextId s = wrap32 (int (Suc n))"
  with CallAdd show ?thesis
    using wrap32_succ [of "int (Suc n)"] by (simp add: add.commute)
next
  case (CallRemove i)
  assume "nextId s = wrap32 (int (Suc n))"
  with CallRemove show ?thesis by (simp add: RemoveComponent_nextId)
next
  case CallUndo
  assume "nextId s = wrap32 (int (Suc n))"
  with CallUndo show ?thesis by (simp add: Undo_fields)
qed

lemma run_nextId:
  "nextId s = wrap32 (int (Suc n)) \<Longrightarrow>
   nextId (run sd cs s) = wrap32 (int (Suc (n + adds cs)))"
proof (induction cs arbitrary: n s)
  case Nil
  then show ?case by simp
next
  case (Cons c cs)
  from Cons.prems have "nextId (exec sd c s) = wrap32 (int (Suc (n + adds [c])))"
    by (rule exec_nextId)
  then have "nextId (run sd cs (exec sd c s)) = wrap32 (int (Suc (n + adds [c] + adds cs)))"
    by (rule Cons.IH)
  moreover have "adds (c # cs) = adds [c] + adds cs"
    using adds_append [of "[c]" cs] by simp
  ultimately show ?case by (simp add: add.assoc)
qed

lemma init_nextId: "nextId init_ledger = wrap32 (int (Suc 0))"
  by (simp add: init_ledger_def wrap32_def)

lemma round_fields:
  assumes "componentsData s = [c]" and "idC c = 1"
  shows "componentsData (run sd remove_add_undo_undo s) = [c]"
    and "in_sync (run sd remove_add_undo_undo s)"
proof -
  have p: "1 \<in> idC ` set (componentsData s)"
    using assms by simp
  let ?s1 = "snd (RemoveComponent 1 s)"
  let ?s2 = "snd (AddComponent sd RESISTOR 10 SERIES ?s1)"
  let ?s3 = "snd (Undo ?s2)"
  have r: "run sd remove_add_undo_undo s = snd (Undo ?s3)"
    by (simp add: remove_add_undo_undo_def)
  have s1: "componentsData ?s1 = []" "undoStack ?s1 = [c] # undoStack s"
    using assms by (simp_all add: RemoveComponent_present [OF p])
  have s3: "undoStack ?s3 = [c] # undoStack s"
    using s1 by (simp add: Undo_fields)
  show "componentsData (run sd remove_add_undo_undo s) = [c]"
    using s3 by (simp add: r Undo_fields)
  show "in_sync (run sd remove_add_undo_undo s)"
    unfolding r using s3 by (intro Undo_in_sync) simp
qed

lemma rounds_fields:
  assumes "componentsData s = [c]" and "idC c = 1" and "in_sync s"
  shows "componentsData (run sd (concat (replicate n remove_add_undo_undo)) s) = [c] \<and>
         in_sync (run sd (concat (replicate n remove_add_undo_undo)) s)"
  using assms
proof (induction n arbitrary: s)
  case 0
  then show ?case by simp
next
  case (Suc n)
  have "componentsData (run sd remove_add_undo_undo s) = [c]"
    and "in_sync (run sd remove_add_undo_undo s)"
    using Suc.prems(1,2) by (rule round_fields)+
  with Suc.prems(2) Suc.IH [of "run sd remove_add_undo_undo s"]
  show ?case by (simp add: run_append)
qed

subsection \<open>The two ID lists and the component list\<close>

text \<open>
  Claim C3, as stated: after every operation the IDs of the two lists are the IDs of the
  component list and no ID is in both lists. The ID counter has 32 bits. A session of one
  add of a series resistor, \<open>2^32 - 1\<close> rounds of remove, add, undo, undo that each advance
  the counter and change nothing else, and one add of a parallel resistor gives the last
  component the ID 1 that the first still has: 1 is in the series list and in the
  parallel list.
\<close>

theorem lists_overlap_after_wrap_counterexample:
  "seriesCircuit (run example_show_double
      (CallAdd RESISTOR 10 SERIES # concat (replicate 4294967295 remove_add_undo_undo)
         @ [CallAdd RESISTOR 10 PARALLEL]) init_ledger) = [1] \<and>
   parallelCircuit (run example_show_double
      (CallAdd RESISTOR 10 SERIES # concat (replicate 4294967295 remove_add_undo_undo)
         @ [CallAdd RESISTOR 10 PARALLEL]) init_ledger) = [1]"
proof -
  define s0 where "s0 = snd (AddComponent example_show_double RESISTOR 10 SERIES init_ledger)"
  define rounds where "rounds = concat (replicate 4294967295 remove_add_undo_undo)"
  define s1 where "s1 = run example_show_double rounds s0"
  have c0: "componentsData s0 = [\<lparr>idC = 1, type = RESISTOR, valueC = 10, circuitType = SERIES\<rparr>]"
    by (simp add: s0_def init_ledger_def)
  have y0: "in_sync s0"
    by (simp add: s0_def in_sync_def init_ledger_def)
  have "nextId s0 = wrap32 (int (Suc 0) + 1)"
    by (simp add: s0_def init_ledger_def)
  then have n0: "nextId s0 = wrap32 (int (Suc 1))"
    by simp
  have f1: "componentsData s1 = [\<lparr>idC = 1, type = RESISTOR, valueC = 10, circuitType = SERIES\<rparr>]
            \<and> in_sync s1"
    unfolding s1_def rounds_def using c0 _ y0 by (rule rounds_fields) simp
  have "adds rounds = 4294967295"
    unfolding rounds_def by (rule adds_rounds)
  with run_nextId [OF n0, of example_show_double rounds]
  have "nextId s1 = wrap32 (int (Suc (1 + 4294967295)))"
    by (simp only: s1_def)
  then have n1: "nextId s1 = 1"
    by (simp add: wrap32_def)
  have r: "run example_show_double
      (CallAdd RESISTOR 10 SERIES # rounds @ [CallAdd RESISTOR 10 PARALLEL]) init_ledger
      = snd (AddComponent example_show_double RESISTOR 10 PARALLEL s1)"
    by (simp add: run_append s1_def s0_def)
  from f1 n1 show ?thesis
    unfolding rounds_def [symmetric] r by (simp add: in_sync_def)
qed

text \<open>
  Claim C3, amended. After any session of AddComponent, RemoveComponent and Undo calls on
  the initial ledger with at most \<open>2^32\<close> adds, the IDs of the series list together with
  those of the parallel list are exactly the IDs of the component list, and no ID is in
  both lists.
\<close>

theorem lists_partition_collection:
  "adds cs \<le> 4294967296 \<Longrightarrow>
   set (seriesCircuit (run sd cs init_ledger)) \<union> set (parallelCircuit (run sd cs init_ledger))
     = idC ` set (componentsData (run sd cs init_ledger)) \<and>
   set (seriesCircuit (run sd cs init_ledger)) \<inter> set (parallelCircuit (run sd cs init_ledger))
     = {}"
  using ledger_inv_run [OF ledger_inv_init, of cs sd]
  by (simp add: ledger_inv_union ledger_inv_disjoint)

theorem lists_partition_collection_witness:
  "adds [CallAdd RESISTOR 10 SERIES, CallAdd CAPACITOR 1 PARALLEL, CallRemove 1, CallUndo]
     \<le> 4294967296 \<and>
   set (seriesCircuit (run example_show_double
          [CallAdd RESISTOR 10 SERIES, CallAdd CAPACITOR 1 PARALLEL, CallRemove 1, CallUndo]
          init_ledger))
     \<union> set (parallelCircuit (run example_show_double
          [CallAdd RESISTOR 10 SERIES, CallAdd CAPACITOR 1 PARALLEL, CallRemove 1, CallUndo]
          init_ledger))
     = idC ` set (componentsData (run example_show_double
          [CallAdd RESISTOR 10 SERIES, CallAdd CAPACITOR 1 PARALLEL, CallRemove 1, CallUndo]
          init_ledger)) \<and>
   set (seriesCircuit (run example_show_double
          [CallAdd RESISTOR 10 SERIES, CallAdd CAPACITOR 1 PARALLEL, CallRemove 1, CallUndo]
          init_ledger))
     \<inter> set (parallelCircuit (run example_show_double
          [CallAdd RESISTOR 10 SERIES, CallAdd CAPACITOR 1 PARALLEL, CallRemove 1, CallUndo]
          init_ledger))
     = {}"
proof -
  have h: "adds [CallAdd RESISTOR 10 SERIES, CallAdd CAPACITOR 1 PARALLEL, CallRemove 1, CallUndo]
     \<le> 4294967296"
    by simp
  show ?thesis
    using h lists_partition_collection [OF h, of example_show_double] by blast
qed

subsection \<open>IDs\<close>

lemma assigned_ids_eq:
  "nextId s = wrap32 (int (Suc n)) \<Longrightarrow>
   assigned_ids sd cs s = map (\<lambda>k. wrap32 (int (Suc k))) [n..<n + adds cs]"
proof (induction sd cs s arbitrary: n rule: assigned_ids.induct)
  case (1 sd s)
  then show ?case by simp
next
  case (2 sd t v c cs s)
  from "2.prems" have "nextId (exec sd (CallAdd t v c) s) = wrap32 (int (Suc (Suc n)))"
    using exec_nextId [of s n sd "CallAdd t v c"] by simp
  then have "assigned_ids sd cs (exec sd (CallAdd t v c) s)
             = map (\<lambda>k. wrap32 (int (Suc k))) [Suc n..<Suc n + adds cs]"
    by (rule "2.IH")
  moreover have "[n..<n + adds (CallAdd t v c # cs)] = n # [Suc n..<Suc n + adds cs]"
    by (simp add: upt_conv_Cons)
  ultimately show ?case
    using "2.prems" by simp
next
  case (3 sd i cs s)
  from "3.prems" have "nextId (exec sd (CallRemove i) s) = wrap32 (int (Suc n))"
    by (simp add: RemoveComponent_nextId)
  then have "assigned_ids sd cs (exec sd (CallRemove i) s)
             = map (\<lambda>k. wrap32 (int (Suc k))) [n..<n + adds cs]"
    by (rule "3.IH")
  then show ?case by simp
next
  case (4 sd cs s)
  from "4.prems" have "nextId (exec sd CallUndo s) = wrap32 (int (Suc n))"
    by (simp add: Undo_fields)
  then have "assigned_ids sd cs (exec sd CallUndo s)
             = map (\<lambda>k. wrap32 (int (Suc k))) [n..<n + adds cs]"
    by (rule "4.IH")
  then show ?case by simp
qed

lemma assigned_ids_increasing:
  assumes "adds cs \<le> 2147483647"
  shows "sorted_wrt (<) (assigned_ids sd cs init_ledger)"
proof -
  have "assigned_ids sd cs init_ledger = map (\<lambda>k. wrap32 (int (Suc k))) [0..<0 + adds cs]"
    using init_nextId by (rule assigned_ids_eq)
  also have "\<dots> = map (\<lambda>k. int (Suc k)) [0..<adds cs]"
    using assms by (simp add: wrap32_id)
  finally have "assigned_ids sd cs init_ledger = map (\<lambda>k. int (Suc k)) [0..<adds cs]" .
  then show ?thesis
    by (simp add: sorted_wrt_map)
qed

lemma wrap32_Suc_inj:
  assumes "j < m" and "k < m" and "m \<le> n + 4294967296" and "n \<le> j" and "n \<le> k"
    and "wrap32 (int (Suc j)) = wrap32 (int (Suc k))"
  shows "j = k"
proof (rule ccontr)
  assume "j \<noteq> k"
  then consider "j < k" | "k < j" by linarith
  then show False
  proof cases
    case 1
    with assms have "Suc j < Suc k" and "Suc k \<le> Suc j + 4294967295" by simp_all
    then have "wrap32 (int (Suc j)) \<noteq> wrap32 (int (Suc k))" by (rule wrap32_distinct)
    with assms(6) show False by simp
  next
    case 2
    with assms have "Suc k < Suc j" and "Suc j \<le> Suc k + 4294967295" by simp_all
    then have "wrap32 (int (Suc k)) \<noteq> wrap32 (int (Suc j))" by (rule wrap32_distinct)
    with assms(6) show False by simp
  qed
qed

lemma assigned_ids_distinct:
  assumes "adds cs \<le> 4294967296"
  shows "distinct (assigned_ids sd cs init_ledger)"
proof -
  have "assigned_ids sd cs init_ledger = map (\<lambda>k. wrap32 (int (Suc k))) [0..<0 + adds cs]"
    using init_nextId by (rule assigned_ids_eq)
  moreover have "inj_on (\<lambda>k. wrap32 (int (Suc k))) {0..<adds cs}"
  proof (rule inj_onI)
    fix j k
    assume "j \<in> {0..<adds cs}" and "k \<in> {0..<adds cs}"
      and "wrap32 (int (Suc j)) = wrap32 (int (Suc k))"
    with assms show "j = k"
      using wrap32_Suc_inj [of j "adds cs" k 0] by simp
  qed
  ultimately show ?thesis
    by (simp add: distinct_map)
qed

lemma assigned_ids_fresh:
  assumes "adds cs0 + adds cs \<le> 4294967296"
  shows "set (assigned_ids sd cs (run sd cs0 init_ledger))
           \<inter> idC ` set (componentsData (run sd cs0 init_ledger)) = {}"
proof -
  define s where "s = run sd cs0 init_ledger"
  have "0 + adds cs0 \<le> 4294967296"
    using assms by simp
  with ledger_inv_init have "ledger_inv (0 + adds cs0) (run sd cs0 init_ledger)"
    by (rule ledger_inv_run)
  then have inv: "ledger_inv (adds cs0) s"
    by (simp add: s_def)
  then have "nextId s = wrap32 (int (Suc (adds cs0)))"
    by (simp add: ledger_inv_def)
  then have a: "assigned_ids sd cs s
      = map (\<lambda>k. wrap32 (int (Suc k))) [adds cs0..<adds cs0 + adds cs]"
    by (rule assigned_ids_eq)
  have "idC c \<noteq> i" if "c \<in> set (componentsData s)" and "i \<in> set (assigned_ids sd cs s)"
    for c i
  proof -
    from inv that(1) obtain k where k: "1 \<le> k" "k \<le> adds cs0" "idC c = wrap32 (int k)"
      by (auto simp: ledger_inv_def fresh_ids_def)
    from that(2) a obtain j where j: "adds cs0 \<le> j" "j < adds cs0 + adds cs"
      "i = wrap32 (int (Suc j))"
      by auto
    from k j assms have "k < Suc j" and "Suc j \<le> k + 4294967295"
      by simp_all
    then have "wrap32 (int k) \<noteq> wrap32 (int (Suc j))"
      by (rule wrap32_distinct)
    with k j show ?thesis by simp
  qed
  then show ?thesis
    unfolding s_def [symmetric] by blast
qed

text \<open>
  Claim C4, as stated: in every session each ID handed out is greater than all those
  handed out before. After one add and \<open>2^31 - 3\<close> rounds of remove, add, undo, undo the
  counter is \<open>2147483647\<close>; the next two adds hand out \<open>2147483647\<close> and then
  \<open>-2147483648\<close>, so the IDs of the session are not increasing. In a session with
  \<open>2^32 + 1\<close> adds the first and the last ID handed out are both 1.
\<close>

theorem ids_decrease_at_wrap_counterexample:
  "nextId (run example_show_double
      (CallAdd RESISTOR 10 SERIES # concat (replicate 2147483645 remove_add_undo_undo))
      init_ledger) = 2147483647 \<and>
   assigned_ids example_show_double [CallAdd RESISTOR 10 SERIES, CallAdd RESISTOR 10 SERIES]
     (run example_show_double
        (CallAdd RESISTOR 10 SERIES # concat (replicate 2147483645 remove_add_undo_undo))
        init_ledger)
     = [2147483647, - 2147483648] \<and>
   \<not> sorted_wrt (<) (assigned_ids example_show_double
     ((CallAdd RESISTOR 10 SERIES # concat (replicate 2147483645 remove_add_undo_undo))
        @ [CallAdd RESISTOR 10 SERIES, CallAdd RESISTOR 10 SERIES]) init_ledger) \<and>
   \<not> distinct (assigned_ids example_show_double
     (CallAdd RESISTOR 10 SERIES # concat (replicate 4294967295 remove_add_undo_undo)
        @ [CallAdd RESISTOR 10 PARALLEL]) init_ledger)"
proof -
  define rounds32 where "rounds32 = concat (replicate 4294967295 remove_add_undo_undo)"
  have "adds rounds32 = 4294967295"
    unfolding rounds32_def by (rule adds_rounds)
  then have a32: "adds (CallAdd RESISTOR 10 SERIES # rounds32 @ [CallAdd RESISTOR 10 PARALLEL])
                  = 4294967297"
    by (simp add: adds_append)
  have "assigned_ids example_show_double
          (CallAdd RESISTOR 10 SERIES # rounds32 @ [CallAdd RESISTOR 10 PARALLEL]) init_ledger
        = map (\<lambda>k. wrap32 (int (Suc k)))
            [0..<0 + adds (CallAdd RESISTOR 10 SERIES # rounds32
               @ [CallAdd RESISTOR 10 PARALLEL])]"
    using init_nextId by (rule assigned_ids_eq)
  then have w32: "assigned_ids example_show_double
          (CallAdd RESISTOR 10 SERIES # rounds32 @ [CallAdd RESISTOR 10 PARALLEL]) init_ledger
        = map (\<lambda>k. wrap32 (int (Suc k))) [0..<4294967297]"
    by (simp only: a32) simp
  have "\<not> distinct (map (\<lambda>k. wrap32 (int (Suc k))) [0..<4294967297])"
  proof
    assume "distinct (map (\<lambda>k. wrap32 (int (Suc k))) [0..<4294967297])"
    moreover have "(0::nat) < length (map (\<lambda>k. wrap32 (int (Suc k))) [0..<4294967297])"
      and "(4294967296::nat) < length (map (\<lambda>k. wrap32 (int (Suc k))) [0..<4294967297])"
      by simp_all
    ultimately have "(map (\<lambda>k. wrap32 (int (Suc k))) [0..<4294967297] ! 0
                    = map (\<lambda>k. wrap32 (int (Suc k))) [0..<4294967297] ! 4294967296)
                   = ((0::nat) = 4294967296)"
      by (rule nth_eq_iff_index_eq)
    then show False
      by (simp add: wrap32_def)
  qed
  with w32 have reuse: "\<not> distinct (assigned_ids example_show_double
     (CallAdd RESISTOR 10 SERIES # rounds32 @ [CallAdd RESISTOR 10 PARALLEL]) init_ledger)"
    by simp
  define rounds where "rounds = concat (replicate 2147483645 remove_add_undo_undo)"
  define s1 where "s1 = run example_show_double (CallAdd RESISTOR 10 SERIES # rounds) init_ledger"
  have "adds rounds = 2147483645"
    unfolding rounds_def by (rule adds_rounds)
  then have a: "adds (CallAdd RESISTOR 10 SERIES # rounds) = 2147483646"
    by simp
  have "nextId s1 = wrap32 (int (Suc (0 + adds (CallAdd RESISTOR 10 SERIES # rounds))))"
    unfolding s1_def using init_nextId by (rule run_nextId)
  then have n1: "nextId s1 = 2147483647"
    by (simp only: a) (simp add: wrap32_def)
  have t: "assigned_ids example_show_double
             [CallAdd RESISTOR 10 SERIES, CallAdd RESISTOR 10 SERIES] s1
           = [2147483647, - 2147483648]"
    using n1 by (simp add: wrap32_def)
  have "assigned_ids example_show_double
          ((CallAdd RESISTOR 10 SERIES # rounds)
             @ [CallAdd RESISTOR 10 SERIES, CallAdd RESISTOR 10 SERIES]) init_ledger
        = map (\<lambda>k. wrap32 (int (Suc k)))
            [0..<0 + adds ((CallAdd RESISTOR 10 SERIES # rounds)
               @ [CallAdd RESISTOR 10 SERIES, CallAdd RESISTOR 10 SERIES])]"
    using init_nextId by (rule assigned_ids_eq)
  also have "adds ((CallAdd RESISTOR 10 SERIES # rounds)
               @ [CallAdd RESISTOR 10 SERIES, CallAdd RESISTOR 10 SERIES]) = 2147483648"
    using a by (simp only: adds_append) simp
  finally have w: "assigned_ids example_show_double
          ((CallAdd RESISTOR 10 SERIES # rounds)
             @ [CallAdd RESISTOR 10 SERIES, CallAdd RESISTOR 10 SERIES]) init_ledger
        = map (\<lambda>k. wrap32 (int (Suc k))) [0..<2147483648]"
    by simp
  have "\<not> sorted_wrt (<) (map (\<lambda>k. wrap32 (int (Suc k))) [0..<2147483648])"
  proof
    assume "sorted_wrt (<) (map (\<lambda>k. wrap32 (int (Suc k))) [0..<2147483648])"
    then have "map (\<lambda>k. wrap32 (int (Suc k))) [0..<2147483648] ! 2147483646
             < map (\<lambda>k. wrap32 (int (Suc k))) [0..<2147483648] ! 2147483647"
      by (rule sorted_wrt_nth_less) simp_all
    then show False
      by (simp add: wrap32_def)
  qed
  with n1 t w reuse show ?thesis
    unfolding s1_def rounds_def rounds32_def by simp
qed

text \<open>
  Claim C4, amended. In a session from the initial ledger, whatever removals and undos it
  holds: with at most \<open>2^31 - 1\<close> adds the IDs handed out are strictly increasing; with at
  most \<open>2^32\<close> adds they are pairwise distinct, and an ID handed out is the ID of no
  component that was in the list at an earlier point of the session. The ID of a new
  component is the counter; \<open>AddComponent\<close> advances the counter by one, except at
  \<open>2147483647\<close>, from where it goes to \<open>-2147483648\<close>; \<open>RemoveComponent\<close> and \<open>Undo\<close>
  leave it as it is.
\<close>

theorem ids_increase_until_counter_wraps:
  "(adds cs \<le> 2147483647 \<longrightarrow> sorted_wrt (<) (assigned_ids sd cs init_ledger)) \<and>
   (adds cs \<le> 4294967296 \<longrightarrow> distinct (assigned_ids sd cs init_ledger)) \<and>
   (adds cs0 + adds cs \<le> 4294967296 \<longrightarrow>
      set (assigned_ids sd cs (run sd cs0 init_ledger))
        \<inter> idC ` set (componentsData (run sd cs0 init_ledger)) = {}) \<and>
   idC (last (componentsData (snd (AddComponent sd t v c s)))) = nextId s \<and>
   (- 2147483648 \<le> nextId s \<and> nextId s < 2147483647 \<longrightarrow>
      nextId (snd (AddComponent sd t v c s)) = nextId s + 1) \<and>
   (nextId s = 2147483647 \<longrightarrow> nextId (snd (AddComponent sd t v c s)) = - 2147483648) \<and>
   nextId (snd (RemoveComponent i s)) = nextId s \<and>
   nextId (snd (Undo s)) = nextId s"
proof -
  have "nextId (snd (AddComponent sd t v c s)) = nextId s + 1"
    if "- 2147483648 \<le> nextId s" and "nextId s < 2147483647"
    using that by (simp add: wrap32_id)
  moreover have "nextId (snd (AddComponent sd t v c s)) = - 2147483648"
    if "nextId s = 2147483647"
    using that by (simp add: wrap32_def)
  ultimately show ?thesis
    by (simp add: assigned_ids_increasing assigned_ids_distinct assigned_ids_fresh
        RemoveComponent_nextId Undo_fields)
qed

theorem ids_increase_until_counter_wraps_witness:
  "adds [CallAdd RESISTOR 10 SERIES, CallRemove 1, CallAdd CAPACITOR 1 PARALLEL, CallUndo,
         CallAdd INDUCTOR 1 SERIES] \<le> 2147483647 \<and>
   adds [CallAdd RESISTOR 10 SERIES] +
     adds [CallAdd RESISTOR 10 SERIES, CallRemove 1, CallAdd CAPACITOR 1 PARALLEL, CallUndo,
           CallAdd INDUCTOR 1 SERIES] \<le> 4294967296 \<and>
   - 2147483648 \<le> nextId init_ledger \<and> nextId init_ledger < 2147483647 \<and>
   nextId (snd (AddComponent example_show_double RESISTOR 10 SERIES
                  (init_ledger\<lparr>nextId := 2147483647\<rparr>))) = - 2147483648 \<and>
   assigned_ids example_show_double
     [CallAdd RESISTOR 10 SERIES, CallRemove 1, CallAdd CAPACITOR 1 PARALLEL, CallUndo,
      CallAdd INDUCTOR 1 SERIES] init_ledger = [1, 2, 3] \<and>
   sorted_wrt (<) (assigned_ids example_show_double
     [CallAdd RESISTOR 10 SERIES, CallRemove 1, CallAdd CAPACITOR 1 PARALLEL, CallUndo,
      CallAdd INDUCTOR 1 SERIES] init_ledger) \<and>
   distinct (assigned_ids example_show_double
     [CallAdd RESISTOR 10 SERIES, CallRemove 1, CallAdd CAPACITOR 1 PARALLEL, CallUndo,
      CallAdd INDUCTOR 1 SERIES] init_ledger) \<and>
   set (assigned_ids example_show_double
     [CallAdd RESISTOR 10 SERIES, CallRemove 1, CallAdd CAPACITOR 1 PARALLEL, CallUndo,
      CallAdd INDUCTOR 1 SERIES]
          (run example_show_double [CallAdd RESISTOR 10 SERIES] init_ledger))
     \<inter> idC ` set (componentsData
          (run example_show_double [CallAdd RESISTOR 10 SERIES] init_ledger)) = {} \<and>
   nextId (snd (AddComponent example_show_double RESISTOR 10 SERIES init_ledger))
     = nextId init_ledger + 1"
proof -
  have h1: "adds [CallAdd RESISTOR 10 SERIES, CallRemove 1, CallAdd CAPACITOR 1 PARALLEL,
                  CallUndo, CallAdd INDUCTOR 1 SERIES] \<le> 2147483647"
    by simp
  have h2: "adds [CallAdd RESISTOR 10 SERIES, CallRemove 1, CallAdd CAPACITOR 1 PARALLEL,
                  CallUndo, CallAdd INDUCTOR 1 SERIES] \<le> 4294967296"
    by simp
  have h3: "adds [CallAdd RESISTOR 10 SERIES] +
     adds [CallAdd RESISTOR 10 SERIES, CallRemove 1, CallAdd CAPACITOR 1 PARALLEL, CallUndo,
           CallAdd INDUCTOR 1 SERIES] \<le> 4294967296"
    by simp
  have h4: "- 2147483648 \<le> nextId init_ledger \<and> nextId init_ledger < 2147483647"
    by (simp add: init_ledger_def)
  have h5: "nextId (init_ledger\<lparr>nextId := 2147483647\<rparr>) = 2147483647"
    by simp
  have e: "assigned_ids example_show_double
     [CallAdd RESISTOR 10 SERIES, CallRemove 1, CallAdd CAPACITOR 1 PARALLEL, CallUndo,
      CallAdd INDUCTOR 1 SERIES] init_ledger = [1, 2, 3]"
    by (simp add: init_ledger_def RemoveComponent_nextId Undo_fields wrap32_def)
  note T = ids_increase_until_counter_wraps
            [of "[CallAdd RESISTOR 10 SERIES, CallRemove 1, CallAdd CAPACITOR 1 PARALLEL,
                  CallUndo, CallAdd INDUCTOR 1 SERIES]"
                example_show_double "[CallAdd RESISTOR 10 SERIES]" RESISTOR 10 SERIES
                init_ledger]
  note U = ids_increase_until_counter_wraps
            [of "[]" example_show_double "[]" RESISTOR 10 SERIES
                "init_ledger\<lparr>nextId := 2147483647\<rparr>"]
  from T h1 have a: "sorted_wrt (<) (assigned_ids example_show_double
     [CallAdd RESISTOR 10 SERIES, CallRemove 1, CallAdd CAPACITOR 1 PARALLEL, CallUndo,
      CallAdd INDUCTOR 1 SERIES] init_ledger)"
    by blast
  from T h2 have b: "distinct (assigned_ids example_show_double
     [CallAdd RESISTOR 10 SERIES, CallRemove 1, CallAdd CAPACITOR 1 PARALLEL, CallUndo,
      CallAdd INDUCTOR 1 SERIES] init_ledger)"
    by blast
  from T h3 have c: "set (assigned_ids example_show_double
     [CallAdd RESISTOR 10 SERIES, CallRemove 1, CallAdd CAPACITOR 1 PARALLEL, CallUndo,
      CallAdd INDUCTOR 1 SERIES]
          (run example_show_double [CallAdd RESISTOR 10 SERIES] init_ledger))
     \<inter> idC ` set (componentsData
          (run example_show_double [CallAdd RESISTOR 10 SERIES] init_ledger)) = {}"
    by blast
  from T h4 have d: "nextId (snd (AddComponent example_show_double RESISTOR 10 SERIES init_ledger))
     = nextId init_ledger + 1"
    by blast
  from U h5 have f: "nextId (snd (AddComponent example_show_double RESISTOR 10 SERIES
                  (init_ledger\<lparr>nextId := 2147483647\<rparr>))) = - 2147483648"
    by blast
  from h1 h3 h4 a b c d e f show ?thesis
    by blast
qed

subsection \<open>The operation queue\<close>

lemma PushSnapshot_opQueue:
  "opQueue (snd (PushSnapshot d s)) =
     (if length (opQueue s) < 20 then opQueue s @ [\<lparr>description = d\<rparr>]
      else tl (opQueue s) @ [\<lparr>description = d\<rparr>])"
proof (cases "length (opQueue s) < 20")
  case True
  then show ?thesis by (simp add: PushSnapshot_def Let_def)
next
  case False
  then have "opQueue s \<noteq> []" by auto
  with False show ?thesis by (simp add: PushSnapshot_def Let_def)
qed

lemma PushSnapshot_opQueue_length:
  "length (opQueue s) \<le> 20 \<Longrightarrow> length (opQueue (snd (PushSnapshot d s))) \<le> 20"
  by (simp add: PushSnapshot_opQueue)

lemma AddComponent_opQueue:
  "opQueue (snd (AddComponent sd t v c s)) =
     opQueue (snd (PushSnapshot
       (''Added '' @ TypeToString t @ '' to ''
          @ (if c = SERIES then ''SERIES'' else ''PARALLEL'')
          @ '' circuit (ID='' @ show_int (nextId s) @ '', value='' @ sd v @ '')'') s))"
  by (simp add: AddComponent_def Let_def PushSnapshot_opQueue)

lemma RemoveComponent_opQueue:
  "opQueue (snd (RemoveComponent i s)) =
     (if i \<in> idC ` set (componentsData s)
      then opQueue (snd (PushSnapshot (''Removed component ID='' @ show_int i) s))
      else opQueue s)"
proof (cases "i \<in> idC ` set (componentsData s)")
  case True
  then show ?thesis by (simp add: RemoveComponent_present PushSnapshot_opQueue)
next
  case False
  then show ?thesis by (simp add: RemoveComponent_def RemoveComponent_loop_absent)
qed

lemma exec_opQueue_length:
  "length (opQueue s) \<le> 20 \<Longrightarrow> length (opQueue (exec sd c s)) \<le> 20"
proof (cases c)
  case (CallAdd t v k)
  assume "length (opQueue s) \<le> 20"
  with CallAdd show ?thesis
    by (simp only: exec.simps AddComponent_opQueue PushSnapshot_opQueue_length)
next
  case (CallRemove i)
  assume "length (opQueue s) \<le> 20"
  with CallRemove show ?thesis
    by (simp add: RemoveComponent_opQueue PushSnapshot_opQueue_length del: One_nat_def)
next
  case CallUndo
  assume "length (opQueue s) \<le> 20"
  with CallUndo show ?thesis by (simp add: Undo_fields)
qed

lemma run_opQueue_length:
  "length (opQueue s) \<le> 20 \<Longrightarrow> length (opQueue (run sd cs s)) \<le> 20"
  by (induction cs arbitrary: s) (simp_all add: exec_opQueue_length)

lemma init_opQueue_length: "length (opQueue init_ledger) \<le> 20"
  by (simp add: init_ledger_def)

text \<open>
  Claim C9. In any ledger reached by a session from the initial one, after a call of
  \<open>PushSnapshot\<close> the operation queue has at most 20 entries: it is the queue before
  with the new entry at the back, less its front entry (the oldest) when it had 20.
\<close>

theorem opQueue_capped_fifo:
  "length (opQueue (snd (PushSnapshot d (run sd cs init_ledger)))) \<le> 20 \<and>
   opQueue (snd (PushSnapshot d (run sd cs init_ledger))) =
     (if length (opQueue (run sd cs init_ledger)) < 20
      then opQueue (run sd cs init_ledger) @ [\<lparr>description = d\<rparr>]
      else tl (opQueue (run sd cs init_ledger)) @ [\<lparr>description = d\<rparr>])"
proof
  have "length (opQueue (run sd cs init_ledger)) \<le> 20"
    using init_opQueue_length by (rule run_opQueue_length)
  then show "length (opQueue (snd (PushSnapshot d (run sd cs init_ledger)))) \<le> 20"
    by (rule PushSnapshot_opQueue_length)
next
  show "opQueue (snd (PushSnapshot d (run sd cs init_ledger))) =
     (if length (opQueue (run sd cs init_ledger)) < 20
      then opQueue (run sd cs init_ledger) @ [\<lparr>description = d\<rparr>]
      else tl (opQueue (run sd cs init_ledger)) @ [\<lparr>description = d\<rparr>])"
    by (rule PushSnapshot_opQueue)
qed

subsection \<open>Resistance of a group\<close>

lemma FindComponent_loop_find: "FindComponent_loop cs i = find (\<lambda>c. idC c = i) cs"
  by (induction cs) simp_all

lemma FindComponent_loop_None: "FindComponent_loop cs i = None \<longleftrightarrow> i \<notin> idC ` set cs"
  by (induction cs) auto

lemma FindComponent_loop_Some: "FindComponent_loop cs i = Some c \<Longrightarrow> i \<in> idC ` set cs"
  using FindComponent_loop_None [of cs i] by auto

lemma Complex_zero: "Complex 0 0 = 0"
  by (simp add: complex_eq_iff)

lemma Complex_one: "Complex 1 0 = 1"
  by (simp add: complex_eq_iff)

lemma members_Nil [simp]: "members s [] = []"
  by (simp add: members_def map_filter_simps)

lemma members_Cons:
  "members s (i # ids) =
     (case FindComponent_loop (componentsData s) i of
        None \<Rightarrow> members s ids | Some c \<Rightarrow> c # members s ids)"
  unfolding members_def
  by (simp add: map_filter_simps FindComponent_loop_find)

lemma CalcSeries_loop_eq:
  "CalcSeries_loop ids acc s = (acc + series_resistance_spec (members s ids), s)"
proof (induction ids arbitrary: acc)
  case Nil
  then show ?case by (simp add: series_resistance_spec_def)
next
  case (Cons i ids)
  then show ?case
    by (simp add: FindComponent_def members_Cons series_resistance_spec_def
        split: option.split)
qed

lemma CalcParallel_loop_eq:
  "CalcParallel_loop ids acc s = (acc + reciprocal_sum_spec (members s ids), s)"
proof (induction ids arbitrary: acc)
  case Nil
  then show ?case by (simp add: reciprocal_sum_spec_def)
next
  case (Cons i ids)
  then show ?case
    by (simp add: FindComponent_def members_Cons reciprocal_sum_spec_def
        split: option.split)
qed

lemma one_capacitor_data:
  "componentsData one_capacitor = [\<lparr>idC = 1, type = CAPACITOR, valueC = 1, circuitType = SERIES\<rparr>]"
  by (simp add: one_capacitor_def init_ledger_def)

lemma two_resistors_data:
  "componentsData two_resistors =
     [\<lparr>idC = 1, type = RESISTOR, valueC = 100, circuitType = PARALLEL\<rparr>,
      \<lparr>idC = 2, type = RESISTOR, valueC = 100, circuitType = PARALLEL\<rparr>]"
  by (simp add: two_resistors_def init_ledger_def wrap32_def)

text \<open>
  Claim C7. For every list of IDs, \<open>CalcSeries\<close> returns the sum of the values of the
  members that are resistors (other members add nothing, and the empty list gives 0);
  \<open>CalcParallel\<close> returns the inverse of the sum of \<open>1/value\<close> over the members that are
  resistors of non-zero value, and 0 when that sum is zero, as it is for the empty list
  and when no member is such a resistor.
\<close>

theorem resistance_sums:
  "fst (CalcSeries ids s) = series_resistance_spec (members s ids) \<and>
   fst (CalcSeries [] s) = 0 \<and>
   fst (CalcParallel [] s) = 0 \<and>
   fst (CalcParallel ids s) =
     (if reciprocal_sum_spec (members s ids) = 0 then 0
      else 1 / reciprocal_sum_spec (members s ids)) \<and>
   (filter (\<lambda>c. type c = RESISTOR \<and> valueC c \<noteq> 0) (members s ids) = []
      \<longrightarrow> fst (CalcParallel ids s) = 0)"
  by (simp add: CalcSeries_def CalcParallel_def CalcSeries_loop_eq CalcParallel_loop_eq
      series_resistance_spec_def reciprocal_sum_spec_def)

theorem resistance_sums_witness:
  "filter (\<lambda>c. type c = RESISTOR \<and> valueC c \<noteq> 0) (members one_capacitor [1]) = [] \<and>
   fst (CalcParallel [1] one_capacitor) = 0 \<and>
   fst (CalcParallel [1, 2] two_resistors) = 50 \<and>
   fst (CalcSeries [1, 2] two_resistors) = 200"
proof -
  have h: "filter (\<lambda>c. type c = RESISTOR \<and> valueC c \<noteq> 0) (members one_capacitor [1]) = []"
    by (simp add: members_def map_filter_simps one_capacitor_data)
  have m: "members two_resistors [1, 2] = componentsData two_resistors"
    by (simp add: members_def map_filter_simps two_resistors_data)
  from h m show ?thesis
    using resistance_sums [of "[1]" one_capacitor] resistance_sums [of "[1, 2]" two_resistors]
    by (simp add: series_resistance_spec_def reciprocal_sum_spec_def two_resistors_data)
qed

subsection \<open>Impedance of a group\<close>

text \<open>
  At frequency zero the impedance of a capacitor of non-zero value is \<open>-j\<close> divided by
  zero. The series magnitude is then not finite; in a parallel group the capacitor adds
  the library's quotient to the sum of reciprocals, nothing where that quotient is zero.
\<close>

lemma capacitor_at_zero_frequency:
  "GetComponentImpedanceComplex
     (Some \<lparr>idC = 1, type = CAPACITOR, valueC = 1, circuitType = SERIES\<rparr>) 0 = NonFinite"
  by (simp add: div_by_double_def)

lemma series_at_zero_frequency: "fst (CalcSeriesImpedance [1] 0 one_capacitor) = None"
  by (simp add: CalcSeriesImpedance_def FindComponent_def one_capacitor_data
      div_by_double_def)

lemma parallel_at_zero_frequency:
  "fst (CalcParallelImpedance (Finite 0) [1] 0 one_capacitor) = Some 0"
  by (simp add: CalcParallelImpedance_def FindComponent_def one_capacitor_data
      div_by_double_def Complex_zero)

lemma resistor_and_capacitor_data:
  "componentsData resistor_and_capacitor =
     [\<lparr>idC = 1, type = RESISTOR, valueC = 4, circuitType = PARALLEL\<rparr>,
      \<lparr>idC = 2, type = CAPACITOR, valueC = 1, circuitType = PARALLEL\<rparr>]"
  by (simp add: resistor_and_capacitor_def init_ledger_def wrap32_def)

lemma parallel_with_resistor_at_zero_frequency:
  "fst (CalcParallelImpedance (Finite 0) [1, 2] 0 resistor_and_capacitor) = Some 4"
  by (simp add: CalcParallelImpedance_def FindComponent_def resistor_and_capacitor_data
      div_by_double_def Complex_zero Complex_one Complex_eq Let_def)


subsection \<open>The queries change nothing and skip unknown IDs\<close>

lemma CalcSeries_loop_frame: "snd (CalcSeries_loop ids acc s) = s"
  by (simp add: CalcSeries_loop_eq)

lemma CalcParallel_loop_frame: "snd (CalcParallel_loop ids acc s) = s"
  by (simp add: CalcParallel_loop_eq)

lemma CalcSeriesImpedance_loop_frame: "snd (CalcSeriesImpedance_loop ids freqHz acc s) = s"
  by (induction ids arbitrary: acc)
     (simp_all add: FindComponent_def split: option.split del: GetComponentImpedanceComplex.simps)

lemma CalcParallelImpedance_loop_frame:
  "snd (CalcParallelImpedance_loop dnf ids freqHz acc s) = s"
  by (induction ids arbitrary: acc)
     (simp_all add: FindComponent_def Let_def split: option.split
        del: GetComponentImpedanceComplex.simps)

lemma CalcSeries_loop_skip:
  "CalcSeries_loop (filter (\<lambda>i. i \<in> idC ` set (componentsData s)) ids) acc s
     = CalcSeries_loop ids acc s"
  by (induction ids arbitrary: acc)
     (auto simp: FindComponent_def FindComponent_loop_None split: option.split
           dest: FindComponent_loop_Some)

lemma CalcParallel_loop_skip:
  "CalcParallel_loop (filter (\<lambda>i. i \<in> idC ` set (componentsData s)) ids) acc s
     = CalcParallel_loop ids acc s"
  by (induction ids arbitrary: acc)
     (auto simp: FindComponent_def FindComponent_loop_None split: option.split
           dest: FindComponent_loop_Some)

lemma CalcSeriesImpedance_loop_skip:
  "CalcSeriesImpedance_loop (filter (\<lambda>i. i \<in> idC ` set (componentsData s)) ids) freqHz acc s
     = CalcSeriesImpedance_loop ids freqHz acc s"
  by (induction ids arbitrary: acc)
     (auto simp: FindComponent_def FindComponent_loop_None split: option.split
           simp del: GetComponentImpedanceComplex.simps dest: FindComponent_loop_Some)

lemma CalcParallelImpedance_loop_skip:
  "CalcParallelImpedance_loop dnf (filter (\<lambda>i. i \<in> idC ` set (componentsData s)) ids)
       freqHz acc s
     = CalcParallelImpedance_loop dnf ids freqHz acc s"
  by (induction ids arbitrary: acc)
     (auto simp: FindComponent_def FindComponent_loop_None Let_def split: option.split
           simp del: GetComponentImpedanceComplex.simps dest: FindComponent_loop_Some)

text \<open>
  Claim C10. \<open>CalcSeries\<close>, \<open>CalcParallel\<close>, \<open>CalcSeriesImpedance\<close> and
  \<open>CalcParallelImpedance\<close> (and \<open>FindComponent\<close>, which they call) return the ledger as
  they found it, and their result on a list of IDs is their result on the list without the
  IDs that no component of the component list has.
\<close>

theorem queries_frame_and_skip_unknown_ids:
  "snd (CalcSeries ids s) = s \<and>
   snd (CalcParallel ids s) = s \<and>
   snd (CalcSeriesImpedance ids freqHz s) = s \<and>
   snd (CalcParallelImpedance div_nonfinite ids freqHz s) = s \<and>
   snd (FindComponent i s) = s \<and>
   CalcSeries (filter (\<lambda>i. i \<in> idC ` set (componentsData s)) ids) s = CalcSeries ids s \<and>
   CalcParallel (filter (\<lambda>i. i \<in> idC ` set (componentsData s)) ids) s = CalcParallel ids s \<and>
   CalcSeriesImpedance (filter (\<lambda>i. i \<in> idC ` set (componentsData s)) ids) freqHz s
     = CalcSeriesImpedance ids freqHz s \<and>
   CalcParallelImpedance div_nonfinite
       (filter (\<lambda>i. i \<in> idC ` set (componentsData s)) ids) freqHz s
     = CalcParallelImpedance div_nonfinite ids freqHz s"
proof -
  have "snd (CalcSeries ids s) = s"
    by (simp add: CalcSeries_def CalcSeries_loop_frame)
  moreover have "snd (CalcParallel ids s) = s"
    using CalcParallel_loop_frame [of ids 0 s]
    by (auto simp: CalcParallel_def split: prod.split)
  moreover have "snd (CalcSeriesImpedance ids freqHz s) = s"
    using CalcSeriesImpedance_loop_frame [of ids freqHz "Finite (Complex 0 0)" s]
    by (auto simp: CalcSeriesImpedance_def split: prod.split)
  moreover have "snd (CalcParallelImpedance div_nonfinite ids freqHz s) = s"
    using CalcParallelImpedance_loop_frame [of div_nonfinite ids freqHz "Finite (Complex 0 0)" s]
    by (auto simp: CalcParallelImpedance_def Let_def split: prod.split)
  moreover have "snd (FindComponent i s) = s"
    by (simp add: FindComponent_def)
  ultimately show ?thesis
    by (simp add: CalcSeries_def CalcParallel_def CalcSeriesImpedance_def
        CalcParallelImpedance_def CalcSeries_loop_skip CalcParallel_loop_skip
        CalcSeriesImpedance_loop_skip CalcParallelImpedance_loop_skip)
qed

end
